theory Spec2Isabelle
  imports Complex_Main
begin

section \<open>Data model of \<open>src/app/page.tsx\<close>\<close>

text \<open>
  The page keeps one piece of shared state, the array \<open>items\<close> of \<open>ImageItem\<close>s, and the
  flag \<open>isProcessing\<close>. Everything the component does to the outside world that matters
  here goes through three browser calls: \<open>crypto.randomUUID\<close>, \<open>URL.createObjectURL\<close> and
  \<open>URL.revokeObjectURL\<close>, and through the black-box transform \<open>removeBackground\<close>.

  Strings are lists of characters, binary payloads are lists of bytes. A JavaScript
  \<open>number\<close> is an exact rational or one of the non-finite values (\<open>Infinity\<close>,
  \<open>-Infinity\<close>, \<open>NaN\<close>), which are lumped into \<open>NonFinite\<close>. The arithmetic below is exact
  on finite arguments: the rounding of IEEE doubles and their overflow to \<open>Infinity\<close> are
  not modelled, and the two numbers of a progress tick are taken to be finite.
\<close>

type_synonym bytes = "nat list"

datatype number = Num rat | NonFinite

record "file" =
  file_name :: string
  file_type :: string
  file_bytes :: bytes

datatype status = Pending | Processing | Done | Error

text \<open>Object URLs and UUIDs are opaque tokens; both are drawn from a counter.\<close>

type_synonym url = nat
type_synonym uuid = nat

record image_item =
  item_id :: uuid
  "file" :: "file"
  srcUrl :: url
  resultUrl :: "url option"
  resultBlob :: "bytes option"
  progress :: number
  status :: status
  errorMessage :: "string option"
  keepBackground :: bool

text \<open>
  The component state, together with what has happened so far: \<open>created\<close> and
  \<open>revoked\<close> log every \<open>createObjectURL\<close> and \<open>revokeObjectURL\<close> call in order,
  \<open>transform_calls\<close> logs the file of every \<open>removeBackground\<close> invocation, and
  \<open>updates\<close> logs the array that each \<open>setItems\<close> call has produced, in order.
\<close>

record app =
  items :: "image_item list"
  isProcessing :: bool
  next_uuid :: nat
  next_url :: nat
  created :: "url list"
  revoked :: "url list"
  transform_calls :: "file list"
  updates :: "image_item list list"

definition initial :: app where
  "initial = \<lparr>items = [], isProcessing = False, next_uuid = 0, next_url = 0,
              created = [], revoked = [], transform_calls = [], updates = []\<rparr>"

section \<open>Browser primitives\<close>

definition createObjectURL :: "app \<Rightarrow> url \<times> app" where
  "createObjectURL st =
     (next_url st, st\<lparr>next_url := Suc (next_url st), created := created st @ [next_url st]\<rparr>)"

definition revokeObjectURL :: "url \<Rightarrow> app \<Rightarrow> app" where
  "revokeObjectURL u st = st\<lparr>revoked := revoked st @ [u]\<rparr>"

definition randomUUID :: "app \<Rightarrow> uuid \<times> app" where
  "randomUUID st = (next_uuid st, st\<lparr>next_uuid := Suc (next_uuid st)\<rparr>)"

text \<open>\<open>String.prototype.toLowerCase\<close> on ASCII text and \<open>String.prototype.endsWith\<close>.\<close>

definition lower_char :: "char \<Rightarrow> char" where
  "lower_char c =
     (let n = (of_char c :: nat) in if 65 \<le> n \<and> n \<le> 90 then char_of (n + 32) else c)"

definition toLowerCase :: "string \<Rightarrow> string" where
  "toLowerCase s = map lower_char s"

definition endsWith :: "string \<Rightarrow> string \<Rightarrow> bool" where
  "endsWith s suf = (length suf \<le> length s \<and> drop (length s - length suf) s = suf)"

text \<open>
  Division, multiplication and \<open>Math.round\<close> on numbers. Dividing by zero does not raise
  in JavaScript; it yields a non-finite value, which every later operation propagates.
  \<open>Math.round\<close> rounds halves towards plus infinity.
\<close>

definition js_div :: "rat \<Rightarrow> rat \<Rightarrow> number" where
  "js_div a b = (if b = 0 then NonFinite else Num (a / b))"

fun js_mul :: "number \<Rightarrow> number \<Rightarrow> number" where
  "js_mul (Num a) (Num b) = Num (a * b)"
| "js_mul _ _ = NonFinite"

fun math_round :: "number \<Rightarrow> number" where
  "math_round (Num a) = Num (of_int \<lfloor>a + 1 / 2\<rfloor>)"
| "math_round NonFinite = NonFinite"

section \<open>The effect that revokes object URLs (lines 143--150)\<close>

text \<open>
  The second \<open>useEffect\<close> depends on \<open>items\<close> and returns a cleanup that revokes the source
  and result URL of every item of the array it closed over. React runs that cleanup
  whenever a render commits a new \<open>items\<close> array; every \<open>setItems\<close> call of this file builds
  a new array. \<open>set_items\<close> is one update, committed by a render of its own. Where React
  commits several updates of one continuation in a single render (the update that
  settles an item and the one that starts the next item; ticks reported synchronously),
  the cleanup runs once for them and the \<open>revoked\<close> log of the model is longer than the
  browser's. The \<open>items\<close> field and the \<open>updates\<close> log do not depend on this, nor does a
  lifecycle in which every continuation makes one update.
\<close>

definition revoke_item :: "image_item \<Rightarrow> app \<Rightarrow> app" where
  "revoke_item i st =
     (let st1 = revokeObjectURL (srcUrl i) st
      in case resultUrl i of None \<Rightarrow> st1 | Some u \<Rightarrow> revokeObjectURL u st1)"

definition cleanup_effect :: "image_item list \<Rightarrow> app \<Rightarrow> app" where
  "cleanup_effect old st = fold revoke_item old st"

definition set_items :: "(image_item list \<Rightarrow> image_item list) \<Rightarrow> app \<Rightarrow> app" where
  "set_items f st =
     cleanup_effect (items st)
       (st\<lparr>items := f (items st), updates := updates st @ [f (items st)]\<rparr>)"

section \<open>\<open>addFiles\<close> (lines 26--47)\<close>

definition accepted :: "file \<Rightarrow> bool" where
  "accepted f =
     (let type = toLowerCase (file_type f); name = toLowerCase (file_name f)
      in type = ''image/jpeg'' \<or> type = ''image/jpg''
         \<or> endsWith name ''.jpg'' \<or> endsWith name ''.jpeg'')"

definition new_item :: "file \<Rightarrow> app \<Rightarrow> image_item \<times> app" where
  "new_item f st =
     (let (u, st1) = randomUUID st; (src, st2) = createObjectURL st1
      in (\<lparr>item_id = u, file = f, srcUrl = src, resultUrl = None, resultBlob = None,
           progress = Num 0, status = Pending, errorMessage = None,
           keepBackground = False\<rparr>, st2))"

fun new_items :: "file list \<Rightarrow> app \<Rightarrow> image_item list \<times> app" where
  "new_items [] st = ([], st)"
| "new_items (f # fs) st =
     (let (i, st1) = new_item f st; (is, st2) = new_items fs st1 in (i # is, st2))"

definition addFiles :: "file list \<Rightarrow> app \<Rightarrow> app" where
  "addFiles files st =
     (let list = filter accepted files
      in if length list = 0 then st
         else let (newItems, st1) = new_items list st
              in set_items (\<lambda>prev. prev @ newItems) st1)"

section \<open>\<open>processSequentially\<close> (lines 49--95)\<close>

text \<open>
  What \<open>removeBackground\<close> does for a file is a parameter: the progress ticks
  \<open>(value, total)\<close> it reports, in order, and then either the resulting blob or the value
  it throws (an \<open>Error\<close> with its message, or something else).
\<close>

datatype thrown = ErrorObject string | OtherValue

datatype outcome = Resolved bytes | Rejected thrown

type_synonym adapter = "file \<Rightarrow> (rat \<times> rat) list \<times> outcome"

definition percent :: "rat \<Rightarrow> rat \<Rightarrow> number" where
  "percent val tot =
     (if tot > 0 then math_round (js_mul (js_div val tot) (Num 100)) else Num 0)"

definition mark_processing :: "uuid \<Rightarrow> image_item list \<Rightarrow> image_item list" where
  "mark_processing k prev =
     map (\<lambda>i. if item_id i = k then i\<lparr>status := Processing, progress := Num 0\<rparr> else i) prev"

definition on_progress :: "uuid \<Rightarrow> rat \<times> rat \<Rightarrow> app \<Rightarrow> app" where
  "on_progress k tick st =
     (let p = percent (fst tick) (snd tick)
      in set_items (map (\<lambda>i. if item_id i = k then i\<lparr>progress := p\<rparr> else i)) st)"

definition mark_done :: "uuid \<Rightarrow> url \<Rightarrow> bytes \<Rightarrow> image_item list \<Rightarrow> image_item list" where
  "mark_done k u b prev =
     map (\<lambda>i. if item_id i = k
              then i\<lparr>resultUrl := Some u, resultBlob := Some b,
                     progress := Num 100, status := Done\<rparr>
              else i) prev"

definition failure_message :: "thrown \<Rightarrow> string" where
  "failure_message err =
     (case err of ErrorObject m \<Rightarrow> m | OtherValue \<Rightarrow> ''Failed to remove background'')"

definition mark_error :: "uuid \<Rightarrow> string \<Rightarrow> image_item list \<Rightarrow> image_item list" where
  "mark_error k message prev =
     map (\<lambda>i. if item_id i = k then i\<lparr>status := Error, errorMessage := Some message\<rparr> else i)
       prev"

text \<open>
  One iteration of the \<open>for\<close> loop. \<open>item\<close> is an element of the array the function closed
  over; the updates go to the current state by \<open>id\<close>. The only suspension point is the
  \<open>await\<close>: while the transform of \<open>item\<close> is in flight the user may add files
  (\<open>arrivals\<close> gives the list passed to \<open>addFiles\<close> then, \<open>[]\<close> for none), and the adapter
  reports its ticks.
\<close>

definition process_item ::
  "adapter \<Rightarrow> (file \<Rightarrow> file list) \<Rightarrow> image_item \<Rightarrow> app \<Rightarrow> app" where
  "process_item removeBackground arrivals item st =
     (if status item = Done \<or> status item = Processing then st
      else
        let st1 = set_items (mark_processing (item_id item)) st;
            st2 = st1\<lparr>transform_calls := transform_calls st1 @ [file item]\<rparr>;
            (ticks, result) = removeBackground (file item);
            st3 = addFiles (arrivals (file item)) st2;
            st4 = fold (on_progress (item_id item)) ticks st3
        in case result of
             Resolved blob \<Rightarrow>
               (let (u, st5) = createObjectURL st4
                in set_items (mark_done (item_id item) u blob) st5)
           | Rejected err \<Rightarrow>
               set_items (mark_error (item_id item) (failure_message err)) st4)"

text \<open>
  The whole run: the guard of line 50, the flag, the loop over the array \<open>items\<close> as it
  was when the run started, and the \<open>finally\<close> that resets the flag. A run is started
  explicitly here; in the component the button of line 201 does that, and so does the
  effect of lines 97--102 when \<open>items\<close> changes, an item is pending and no run is in
  flight.
\<close>

definition processSequentially :: "adapter \<Rightarrow> (file \<Rightarrow> file list) \<Rightarrow> app \<Rightarrow> app" where
  "processSequentially removeBackground arrivals st =
     (if isProcessing st then st
      else
        let st1 = st\<lparr>isProcessing := True\<rparr>;
            st2 = fold (process_item removeBackground arrivals) (items st) st1
        in st2\<lparr>isProcessing := False\<rparr>)"

definition no_arrivals :: "file \<Rightarrow> file list" where
  "no_arrivals f = []"

section \<open>\<open>clearAll\<close> (lines 135--141)\<close>

definition clearAll :: "app \<Rightarrow> app" where
  "clearAll st = set_items (\<lambda>prev. []) (fold revoke_item (items st) st)"

section \<open>Export: \<open>getBaseName\<close> and the \<open>Download ZIP\<close> handler (lines 114--116, 300--315)\<close>

text \<open>
  \<open>name.replace(/\.[^.]+$/, "")\<close> removes the leftmost match of the pattern: a dot,
  followed by one or more characters that are not dots, up to the end of the string.
\<close>

fun getBaseName :: "string \<Rightarrow> string" where
  "getBaseName [] = []"
| "getBaseName (c # cs) =
     (if c = CHR ''.'' \<and> cs \<noteq> [] \<and> CHR ''.'' \<notin> set cs then [] else c # getBaseName cs)"

text \<open>
  The archive of \<open>JSZip\<close> is a mapping from paths to contents: \<open>zip.file(path, data)\<close>
  stores \<open>data\<close> under \<open>path\<close> and replaces what was stored there before. (A path with a
  slash would also create folders; the name of a \<open>File\<close> holds none.)
\<close>

type_synonym zip = "string \<rightharpoonup> bytes"

definition zip_file :: "string \<Rightarrow> bytes \<Rightarrow> zip \<Rightarrow> zip" where
  "zip_file path buf z = z(path \<mapsto> buf)"

text \<open>
  \<open>arrayBuffer()\<close> is a promise: it resolves with the bytes of the file or blob, or it
  rejects (a file that can no longer be read). Whether the read that the handler makes
  for an item resolves is a parameter, \<open>readable\<close>. A rejection lands in the \<open>catch\<close> of
  line 312, which skips the item.
\<close>

definition arrayBuffer :: "(image_item \<Rightarrow> bool) \<Rightarrow> image_item \<Rightarrow> bytes \<Rightarrow> bytes option" where
  "arrayBuffer readable item payload = (if readable item then Some payload else None)"

text \<open>
  One iteration of the loop of lines 302--315, and the loop over the items of the current
  array, in order, starting from the empty archive. Line 309 repeats the pattern of
  \<open>getBaseName\<close>.
\<close>

definition zip_item :: "(image_item \<Rightarrow> bool) \<Rightarrow> image_item \<Rightarrow> zip \<Rightarrow> zip" where
  "zip_item readable item z =
     (if keepBackground item then
        (case arrayBuffer readable item (file_bytes (file item)) of
           Some buf \<Rightarrow> zip_file (file_name (file item)) buf z
         | None \<Rightarrow> z)
      else case resultBlob item of
             Some blob \<Rightarrow>
               (case arrayBuffer readable item blob of
                  Some buf \<Rightarrow> zip_file (getBaseName (file_name (file item)) @ ''.png'') buf z
                | None \<Rightarrow> z)
           | None \<Rightarrow> z)"

definition download_zip :: "(image_item \<Rightarrow> bool) \<Rightarrow> image_item list \<Rightarrow> zip" where
  "download_zip readable its = fold (zip_item readable) its Map.empty"

section \<open>The export as the specification words it\<close>

text \<open>
  Written from the specification of the export bundler, to be compared with the handler
  above: \<open>deriveOutputName\<close> strips the last extension of the source name (the text
  after the last dot, when there is a dot and something follows it) and appends the
  output extension; an item contributes its original under its source name when
  \<open>keepOriginal\<close> is set, else its result under the derived name when it has one, else
  nothing.
\<close>

definition strip_last_extension_spec :: "string \<Rightarrow> string" where
  "strip_last_extension_spec name =
     (let ext = rev (takeWhile (\<lambda>c. c \<noteq> CHR ''.'') (rev name))
      in if CHR ''.'' \<in> set name \<and> ext \<noteq> []
         then take (length name - length ext - 1) name
         else name)"

definition deriveOutputName_spec :: "string \<Rightarrow> string \<Rightarrow> string" where
  "deriveOutputName_spec ext name = strip_last_extension_spec name @ ''.'' @ ext"

definition archive_entry_spec :: "image_item \<Rightarrow> (string \<times> bytes) option" where
  "archive_entry_spec item =
     (if keepBackground item then Some (file_name (file item), file_bytes (file item))
      else case resultBlob item of
             Some r \<Rightarrow> Some (deriveOutputName_spec ''png'' (file_name (file item)), r)
           | None \<Rightarrow> None)"

definition buildArchive_spec :: "image_item list \<Rightarrow> (string \<times> bytes) list" where
  "buildArchive_spec its = List.map_filter archive_entry_spec its"

text \<open>
  The same with the two provisos of the code: an item whose bytes cannot be read
  contributes nothing, and of several entries under one path the archive keeps the last.
\<close>

definition readable_entries ::
  "(image_item \<Rightarrow> bool) \<Rightarrow> image_item list \<Rightarrow> (string \<times> bytes) list" where
  "readable_entries readable its =
     List.map_filter (\<lambda>item. if readable item then archive_entry_spec item else None) its"

definition last_write_wins :: "(string \<times> bytes) list \<Rightarrow> string \<rightharpoonup> bytes" where
  "last_write_wins entries = map_of (rev entries)"

section \<open>Notions used in the proofs about a run\<close>

text \<open>
  Every \<open>setItems\<close> update of a run has one shape: the items with a given \<open>id\<close> are
  replaced, the others are kept.
\<close>

definition update_item ::
  "uuid \<Rightarrow> (image_item \<Rightarrow> image_item) \<Rightarrow> image_item list \<Rightarrow> image_item list" where
  "update_item k g prev = map (\<lambda>i. if item_id i = k then g i else i) prev"

text \<open>
  What holds of the items beyond position \<open>l\<close> while a run works on the \<open>l\<close> items it
  started with, all of which have an \<open>id\<close> below \<open>n0\<close>.
\<close>

definition appended_pending :: "nat \<Rightarrow> nat \<Rightarrow> app \<Rightarrow> bool" where
  "appended_pending n0 l st =
     (l \<le> length (items st) \<and> n0 \<le> next_uuid st
      \<and> (\<forall>i \<in> set (drop l (items st)). status i = Pending \<and> n0 \<le> item_id i))"

section \<open>Concrete inputs\<close>

definition cat_jpg :: "file" where
  "cat_jpg = \<lparr>file_name = ''cat.jpg'', file_type = ''image/jpeg'', file_bytes = [1, 2, 3]\<rparr>"

definition notes_txt :: "file" where
  "notes_txt = \<lparr>file_name = ''notes.txt'', file_type = ''text/plain'', file_bytes = [4]\<rparr>"

definition dog_upper :: "file" where
  "dog_upper = \<lparr>file_name = ''DOG.JPEG'', file_type = '''', file_bytes = [5, 6]\<rparr>"

definition cat_jpeg :: "file" where
  "cat_jpeg = \<lparr>file_name = ''cat.jpeg'', file_type = ''image/jpeg'', file_bytes = [8]\<rparr>"

definition bad_jpg :: "file" where
  "bad_jpg = \<lparr>file_name = ''bad.jpg'', file_type = ''image/jpeg'', file_bytes = []\<rparr>"

definition succeeds :: adapter where
  "succeeds f = ([], Resolved [7])"

definition fails :: adapter where
  "fails f = ([], Rejected (ErrorObject ''boom''))"

text \<open>An adapter that fails on \<open>bad.jpg\<close> only, and reports ticks.\<close>

definition picky :: adapter where
  "picky f = (if f = bad_jpg then ([(1, 4)], Rejected (ErrorObject ''boom''))
              else ([(1, 2), (2, 2)], Resolved (file_bytes f)))"


text \<open>While \<open>cat.jpg\<close> is being transformed, the user adds \<open>DOG.JPEG\<close>.\<close>

definition arrive_dog :: "file \<Rightarrow> file list" where
  "arrive_dog f = (if f = cat_jpg then [dog_upper] else [])"

text \<open>One file added; the same, picked up by a run; and the state after a whole run.\<close>

definition one_pending :: app where
  "one_pending = addFiles [cat_jpg] initial"

definition one_processing :: app where
  "one_processing = set_items (mark_processing 0) one_pending"

definition processed_once :: app where
  "processed_once = processSequentially succeeds no_arrivals one_pending"


text \<open>Two files whose results get the same name in the archive, both transformed.\<close>

definition two_cats :: app where
  "two_cats = processSequentially picky no_arrivals (addFiles [cat_jpg, cat_jpeg] initial)"



section \<open>Basic facts about state updates\<close>

lemma revoke_item_fields [simp]:
  "items (revoke_item i st) = items st"
  "isProcessing (revoke_item i st) = isProcessing st"
  "next_uuid (revoke_item i st) = next_uuid st"
  "next_url (revoke_item i st) = next_url st"
  "created (revoke_item i st) = created st"
  "transform_calls (revoke_item i st) = transform_calls st"
  "updates (revoke_item i st) = updates st"
  by (simp_all add: revoke_item_def revokeObjectURL_def Let_def split: option.splits)

lemma fold_revoke_fields [simp]:
  "items (fold revoke_item xs st) = items st"
  "isProcessing (fold revoke_item xs st) = isProcessing st"
  "next_uuid (fold revoke_item xs st) = next_uuid st"
  "next_url (fold revoke_item xs st) = next_url st"
  "created (fold revoke_item xs st) = created st"
  "transform_calls (fold revoke_item xs st) = transform_calls st"
  "updates (fold revoke_item xs st) = updates st"
  by (induction xs arbitrary: st; simp)+

lemma set_items_fields [simp]:
  "items (set_items f st) = f (items st)"
  "isProcessing (set_items f st) = isProcessing st"
  "next_uuid (set_items f st) = next_uuid st"
  "next_url (set_items f st) = next_url st"
  "created (set_items f st) = created st"
  "transform_calls (set_items f st) = transform_calls st"
  "updates (set_items f st) = updates st @ [f (items st)]"
  by (simp_all add: set_items_def cleanup_effect_def)

section \<open>Progress reporting\<close>

lemma percent_range:
  assumes "0 \<le> val" and "val \<le> tot"
  shows "\<exists>p. percent val tot = Num (of_int p) \<and> 0 \<le> p \<and> p \<le> 100"
proof (cases "tot > 0")
  case True
  have "val / tot \<le> 1"
    using assms True by (simp add: divide_le_eq)
  moreover have "0 \<le> val / tot"
    using assms True by simp
  ultimately have "0 \<le> \<lfloor>val / tot * 100 + 1 / 2\<rfloor> \<and> \<lfloor>val / tot * 100 + 1 / 2\<rfloor> \<le> 100"
    by (simp add: floor_le_iff le_floor_iff)
  then show ?thesis
    using True by (simp add: percent_def js_div_def)
next
  case False
  then show ?thesis by (simp add: percent_def)
qed

lemma on_progress_target:
  assumes "i \<in> set (items (on_progress k tick st))" and "item_id i = k"
  shows "progress i = percent (fst tick) (snd tick)"
proof -
  from assms(1) obtain j
    where j: "i = (if item_id j = k then j\<lparr>progress := percent (fst tick) (snd tick)\<rparr> else j)"
    unfolding on_progress_def Let_def by (auto simp only: set_items_fields set_map)
  show ?thesis
  proof (cases "item_id j = k")
    case True
    with j show ?thesis by simp
  next
    case False
    with j assms(2) show ?thesis by simp
  qed
qed

text \<open>
  C1, as stated, fails: the callback of lines 63--70 stores \<open>Math.round(value / total * 100)\<close>
  as it is. With the tick \<open>(2, 1)\<close> the item being processed gets the progress 200.
\<close>

theorem progress_not_clamped_counterexample:
  "map status (items one_processing) = [Processing]
   \<and> map item_id (items one_processing) = [0]
   \<and> map progress (items (on_progress 0 (2, 1) one_processing)) = [Num 200]"
  by code_simp

text \<open>
  C1, amended: for a tick with \<open>0 \<le> current \<le> total\<close> the percentage stored on the item
  being processed lies in \<open>[0, 100]\<close>. (Nothing clamps a tick with \<open>current > total\<close>.)
\<close>

theorem progress_in_range:
  assumes "0 \<le> val" and "val \<le> tot"
    and "i \<in> set (items (on_progress k (val, tot) st))" and "item_id i = k"
  shows "\<exists>p. progress i = Num p \<and> 0 \<le> p \<and> p \<le> 100"
proof -
  from percent_range [OF assms(1,2)] obtain p
    where p: "percent val tot = Num (of_int p)" "0 \<le> p" "p \<le> 100" by blast
  from on_progress_target [OF assms(3,4)] have "progress i = percent val tot"
    by simp
  with p show ?thesis by simp
qed

theorem progress_in_range_witness:
  "(0::rat) \<le> 1 \<and> (1::rat) \<le> 3
   \<and> hd (items (on_progress 0 (1, 3) one_processing))
       \<in> set (items (on_progress 0 (1, 3) one_processing))
   \<and> item_id (hd (items (on_progress 0 (1, 3) one_processing))) = 0
   \<and> (\<exists>p. progress (hd (items (on_progress 0 (1, 3) one_processing))) = Num p
           \<and> 0 \<le> p \<and> p \<le> 100)"
proof -
  have a: "hd (items (on_progress 0 (1, 3) one_processing))
             \<in> set (items (on_progress 0 (1, 3) one_processing))"
    by code_simp
  have b: "item_id (hd (items (on_progress 0 (1, 3) one_processing))) = 0"
    by code_simp
  have c: "(0::rat) \<le> 1" and d: "(1::rat) \<le> 3"
    by simp_all
  have e: "\<exists>p. progress (hd (items (on_progress 0 (1, 3) one_processing))) = Num p
             \<and> 0 \<le> p \<and> p \<le> 100"
    by (rule progress_in_range [OF c d a b])
  show ?thesis
    by (intro conjI c d a b e)
qed

text \<open>
  C8: a tick with \<open>total = 0\<close> takes the \<open>else\<close> branch of line 64. The percentage is the
  fixed value 0, whatever \<open>value\<close> is; that value is what the item gets; and it is not what
  dividing by the zero total would have given.
\<close>

theorem progress_total_zero:
  "percent val 0 = Num 0
   \<and> items (on_progress k (val, 0) st)
       = map (\<lambda>i. if item_id i = k then i\<lparr>progress := Num 0\<rparr> else i) (items st)
   \<and> math_round (js_mul (js_div val 0) (Num 100)) = NonFinite
   \<and> percent val 0 \<noteq> math_round (js_mul (js_div val 0) (Num 100))"
  by (simp add: percent_def js_div_def on_progress_def)

section \<open>A run with nothing to do\<close>

lemma fold_skip_done:
  "\<forall>i \<in> set xs. status i = Done \<Longrightarrow> fold (process_item rb arr) xs st = st"
  by (induction xs arbitrary: st) (simp_all add: process_item_def)

text \<open>
  C9: a run over a collection whose items are all \<open>done\<close> returns the state it was given:
  the items are unchanged, and so is the log of transform invocations.
\<close>

theorem rerun_all_done_noop:
  assumes "\<forall>i \<in> set (items st). status i = Done"
  shows "processSequentially rb arr st = st"
  using assms
  by (cases "isProcessing st") (simp_all add: processSequentially_def fold_skip_done)

theorem rerun_all_done_noop_witness:
  "map status (items processed_once) = [Done]
   \<and> processSequentially fails no_arrivals processed_once = processed_once"
proof -
  have m: "map status (items processed_once) = [Done]"
    by code_simp
  have "set (map status (items processed_once)) = {Done}"
    by (simp only: m) simp
  then have h: "\<forall>i \<in> set (items processed_once). status i = Done"
    by (simp only: set_map) blast
  have e: "processSequentially fails no_arrivals processed_once = processed_once"
    by (rule rerun_all_done_noop [OF h])
  show ?thesis
    by (intro conjI m e)
qed

section \<open>Object URLs over a lifecycle\<close>

text \<open>
  C2 on the code: one file is added, a run transforms it (the adapter reports no tick),
  the collection is cleared. Two URLs are created (0 for the source, 1 for the result).
  The effect cleanup of lines 143--150 revokes the source URL at both state updates of
  the run, while the item is live; \<open>clearAll\<close> revokes both URLs (lines 136--139), and
  its \<open>setItems([])\<close> makes the cleanup revoke both again. Six revocations stand against
  two creations, and each URL is revoked more than once.
\<close>

theorem lifecycle_revokes_twice:
  "created processed_once = [0, 1]
   \<and> revoked processed_once = [0, 0]
   \<and> items (clearAll processed_once) = []
   \<and> created (clearAll processed_once) = [0, 1]
   \<and> revoked (clearAll processed_once) = [0, 0, 0, 1, 0, 1]"
  by code_simp

section \<open>Acquisition\<close>

lemma new_item_props:
  "file (fst (new_item f st)) = f"
  "status (fst (new_item f st)) = Pending"
  "progress (fst (new_item f st)) = Num 0"
  "keepBackground (fst (new_item f st)) = False"
  by (simp_all add: new_item_def randomUUID_def createObjectURL_def Let_def)

lemma new_items_props:
  "map file (fst (new_items fs st)) = fs
   \<and> (\<forall>i \<in> set (fst (new_items fs st)).
         status i = Pending \<and> progress i = Num 0 \<and> \<not> keepBackground i)"
proof (induction fs arbitrary: st)
  case Nil
  show ?case by simp
next
  case (Cons f fs)
  obtain i st1 where a: "new_item f st = (i, st1)" by (cases "new_item f st")
  obtain js st2 where b: "new_items fs st1 = (js, st2)" by (cases "new_items fs st1")
  from a have i: "i = fst (new_item f st)" by simp
  from b have js: "js = fst (new_items fs st1)" by simp
  have "fst (new_items (f # fs) st) = i # js"
    by (simp add: a b)
  with Cons [of st1] show ?case
    by (simp add: i js [symmetric] new_item_props)
qed

lemma new_item_state [simp]:
  "items (snd (new_item f st)) = items st"
  "isProcessing (snd (new_item f st)) = isProcessing st"
  "transform_calls (snd (new_item f st)) = transform_calls st"
  by (simp_all add: new_item_def randomUUID_def createObjectURL_def Let_def)

lemma new_items_state [simp]:
  "items (snd (new_items fs st)) = items st"
  "isProcessing (snd (new_items fs st)) = isProcessing st"
  "transform_calls (snd (new_items fs st)) = transform_calls st"
  by (induction fs arbitrary: st; simp add: split_beta Let_def)+

lemma addFiles_items:
  "items (addFiles files st) = items st @ fst (new_items (filter accepted files) st)"
  by (simp add: addFiles_def Let_def split_beta)

text \<open>
  C10: \<open>addFiles\<close> appends one new item per file that passes the filter of lines 27--36,
  in the order of the input, and nothing for the other files. The filter holds when the
  lowercased content type is \<open>image/jpeg\<close> or \<open>image/jpg\<close>, or the lowercased name ends in
  \<open>.jpg\<close> or \<open>.jpeg\<close>. Every new item is pending with progress 0 and \<open>keepBackground\<close>
  false. When no file passes, the state is returned as it was.
\<close>

theorem addFiles_accepts_jpeg_only:
  "\<exists>new. items (addFiles files st) = items st @ new
     \<and> map file new =
         filter (\<lambda>f. toLowerCase (file_type f) = ''image/jpeg''
                    \<or> toLowerCase (file_type f) = ''image/jpg''
                    \<or> endsWith (toLowerCase (file_name f)) ''.jpg''
                    \<or> endsWith (toLowerCase (file_name f)) ''.jpeg'') files
     \<and> (\<forall>i \<in> set new. status i = Pending \<and> progress i = Num 0 \<and> \<not> keepBackground i)
     \<and> (new = [] \<longrightarrow> addFiles files st = st)"
proof -
  let ?new = "fst (new_items (filter accepted files) st)"
  have 1: "items (addFiles files st) = items st @ ?new"
    by (rule addFiles_items)
  have 2: "map file ?new = filter accepted files"
    using new_items_props [of "filter accepted files" st] by blast
  have 3: "\<forall>i \<in> set ?new. status i = Pending \<and> progress i = Num 0 \<and> \<not> keepBackground i"
    using new_items_props [of "filter accepted files" st] by blast
  have 4: "?new = [] \<longrightarrow> addFiles files st = st"
  proof
    assume "?new = []"
    with 2 have "filter accepted files = []" by simp
    then show "addFiles files st = st" by (simp add: addFiles_def)
  qed
  have 5: "accepted = (\<lambda>f. toLowerCase (file_type f) = ''image/jpeg''
                    \<or> toLowerCase (file_type f) = ''image/jpg''
                    \<or> endsWith (toLowerCase (file_name f)) ''.jpg''
                    \<or> endsWith (toLowerCase (file_name f)) ''.jpeg'')"
    by (rule ext) (simp add: accepted_def Let_def)
  from 1 2 3 4 show ?thesis unfolding 5 by blast
qed

theorem addFiles_accepts_jpeg_only_witness:
  "map file (items (addFiles [cat_jpg, notes_txt, dog_upper] initial)) = [cat_jpg, dog_upper]
   \<and> map status (items (addFiles [cat_jpg, notes_txt, dog_upper] initial)) = [Pending, Pending]
   \<and> addFiles [notes_txt] one_pending = one_pending"
proof -
  let ?q = "\<lambda>f. toLowerCase (file_type f) = ''image/jpeg''
                \<or> toLowerCase (file_type f) = ''image/jpg''
                \<or> endsWith (toLowerCase (file_name f)) ''.jpg''
                \<or> endsWith (toLowerCase (file_name f)) ''.jpeg''"
  have f1: "filter ?q [cat_jpg, notes_txt, dog_upper] = [cat_jpg, dog_upper]"
    by code_simp
  have f2: "filter ?q [notes_txt] = []"
    by code_simp
  have e: "items initial = []"
    by (simp add: initial_def)
  from addFiles_accepts_jpeg_only [of "[cat_jpg, notes_txt, dog_upper]" initial]
  obtain new where n: "items (addFiles [cat_jpg, notes_txt, dog_upper] initial) = new"
      "map file new = [cat_jpg, dog_upper]"
      "\<forall>i \<in> set new. status i = Pending \<and> progress i = Num 0 \<and> \<not> keepBackground i"
    unfolding f1 e by auto
  from n(2) have "length new = 2"
    by (metis length_map length_Cons list.size(3) numeral_2_eq_2)
  then obtain a b where ab: "new = [a, b]"
    by (metis (no_types) length_0_conv length_Suc_conv numeral_2_eq_2)
  with n(3) have s: "map status new = [Pending, Pending]"
    by simp
  from addFiles_accepts_jpeg_only [of "[notes_txt]" one_pending]
  obtain new' where "map file new' = []" "new' = [] \<longrightarrow> addFiles [notes_txt] one_pending = one_pending"
    unfolding f2 by auto
  then have u: "addFiles [notes_txt] one_pending = one_pending"
    by simp
  show ?thesis
    using n(1,2) s u by simp
qed

section \<open>Export\<close>

lemma getBaseName_no_dot: "CHR ''.'' \<notin> set name \<Longrightarrow> getBaseName name = name"
  by (induction name) auto

lemma getBaseName_trailing_dot: "getBaseName (xs @ ''.'') = xs @ ''.''"
  by (induction xs) simp_all

lemma getBaseName_last_dot:
  "ext \<noteq> [] \<Longrightarrow> CHR ''.'' \<notin> set ext \<Longrightarrow> getBaseName (xs @ CHR ''.'' # ext) = xs"
  by (induction xs) simp_all

lemma strip_spec_no_dot: "CHR ''.'' \<notin> set name \<Longrightarrow> strip_last_extension_spec name = name"
  by (simp add: strip_last_extension_spec_def)

lemma strip_spec_last_dot:
  assumes "CHR ''.'' \<notin> set ext"
  shows "strip_last_extension_spec (xs @ CHR ''.'' # ext) = (if ext = [] then xs @ ''.'' else xs)"
proof -
  have "takeWhile (\<lambda>c. c \<noteq> CHR ''.'') (rev (xs @ CHR ''.'' # ext)) = rev ext"
    using assms by (auto simp: takeWhile_tail)
  then show ?thesis
    by (simp add: strip_last_extension_spec_def)
qed

lemma getBaseName_spec: "getBaseName name = strip_last_extension_spec name"
proof (cases "CHR ''.'' \<in> set name")
  case False
  then show ?thesis by (simp add: getBaseName_no_dot strip_spec_no_dot)
next
  case True
  then obtain xs ext where d: "name = xs @ CHR ''.'' # ext" "CHR ''.'' \<notin> set ext"
    using split_list_last by fastforce
  show ?thesis
  proof (cases "ext = []")
    case True
    with d show ?thesis
      using getBaseName_trailing_dot [of xs] strip_spec_last_dot [of "[]" xs] by simp
  next
    case False
    with d show ?thesis
      using getBaseName_last_dot [of ext xs] strip_spec_last_dot [of ext xs] by simp
  qed
qed

lemma zip_item_entry:
  "zip_item readable i z =
     (case (if readable i then archive_entry_spec i else None) of
        None \<Rightarrow> z | Some e \<Rightarrow> z(fst e \<mapsto> snd e))"
  by (simp add: zip_item_def zip_file_def arrayBuffer_def archive_entry_spec_def
      deriveOutputName_spec_def getBaseName_spec split: option.splits)

lemma upd_then_add: "z(k \<mapsto> v) ++ m = z ++ (map_of [(k, v)] ++ m)"
  by (rule ext) (simp add: map_add_def split: option.splits)

lemma fold_zip_item:
  "fold (zip_item readable) its z = z ++ last_write_wins (readable_entries readable its)"
proof (induction its arbitrary: z)
  case Nil
  show ?case by (simp add: last_write_wins_def readable_entries_def map_filter_simps)
next
  case (Cons i its)
  let ?E = "readable_entries readable its"
  show ?case
  proof (cases "if readable i then archive_entry_spec i else None")
    case None
    then have 1: "zip_item readable i z = z"
      by (simp add: zip_item_entry)
    have 2: "readable_entries readable (i # its) = ?E"
      using None by (simp add: readable_entries_def map_filter_simps)
    have "fold (zip_item readable) (i # its) z = fold (zip_item readable) its z"
      by (simp add: 1)
    also have "\<dots> = z ++ last_write_wins ?E"
      by (rule Cons.IH)
    finally show ?thesis
      by (simp only: 2)
  next
    case (Some e)
    obtain k v where e: "e = (k, v)"
      by (cases e)
    have 1: "zip_item readable i z = z(k \<mapsto> v)"
      using Some by (simp add: zip_item_entry e)
    have 2: "readable_entries readable (i # its) = (k, v) # ?E"
      using Some by (simp add: readable_entries_def map_filter_simps e)
    have "fold (zip_item readable) (i # its) z = fold (zip_item readable) its (z(k \<mapsto> v))"
      by (simp only: fold_simps 1)
    also have "\<dots> = z(k \<mapsto> v) ++ last_write_wins ?E"
      by (rule Cons.IH)
    also have "\<dots> = z ++ (map_of [(k, v)] ++ map_of (rev ?E))"
      unfolding last_write_wins_def by (rule upd_then_add)
    also have "map_of [(k, v)] ++ map_of (rev ?E) = map_of (rev ?E @ [(k, v)])"
      by (simp only: map_of_append)
    also have "map_of (rev ?E @ [(k, v)]) = last_write_wins ((k, v) # ?E)"
      by (simp add: last_write_wins_def)
    finally show ?thesis
      by (simp only: 2)
  qed
qed

text \<open>
  C5, as stated, fails in two ways. \<open>cat.jpg\<close> and \<open>cat.jpeg\<close>, both transformed, both
  contribute under \<open>cat.png\<close>, and the archive holds the second result only. And an
  item whose result cannot be read is skipped by the \<open>catch\<close> of line 312, though it has
  a result to contribute.
\<close>

theorem download_zip_drops_entries_counterexample:
  "buildArchive_spec (items two_cats) = [(''cat.png'', [1, 2, 3]), (''cat.png'', [8])]
   \<and> download_zip (\<lambda>item. True) (items two_cats) ''cat.png'' = Some [8]
   \<and> buildArchive_spec (items processed_once) = [(''cat.png'', [7])]
   \<and> download_zip (\<lambda>item. False) (items processed_once) ''cat.png'' = None"
  by code_simp

text \<open>
  C5, amended: the handler visits the items in collection order; an item whose bytes can
  be read contributes its original under its source name when \<open>keepBackground\<close> is set,
  else its result under the derived name when it has one, else nothing; an item whose
  read fails contributes nothing; and the archive holds, under each path, the
  contribution of the last item that has that path. When every read succeeds the
  contributions are those of the specification's \<open>buildArchive\<close>. The derived name is the
  source name with its last extension replaced by \<open>png\<close>: \<open>cat.jpg\<close> is exported as
  \<open>cat.png\<close>, holding the item's result.
\<close>

theorem download_zip_last_write_wins:
  "download_zip readable its = last_write_wins (readable_entries readable its)
   \<and> readable_entries (\<lambda>item. True) its = buildArchive_spec its
   \<and> getBaseName ''cat.jpg'' @ ''.png'' = ''cat.png''
   \<and> download_zip (\<lambda>item. True) (items processed_once) ''cat.png'' = Some [7]"
proof -
  have "download_zip readable its = last_write_wins (readable_entries readable its)"
    by (simp add: download_zip_def fold_zip_item)
  moreover have "readable_entries (\<lambda>item. True) its = buildArchive_spec its"
    by (simp add: readable_entries_def buildArchive_spec_def)
  moreover have "getBaseName ''cat.jpg'' @ ''.png'' = ''cat.png''"
    by code_simp
  moreover have "download_zip (\<lambda>item. True) (items processed_once) ''cat.png'' = Some [7]"
    by code_simp
  ultimately show ?thesis by blast
qed

section \<open>The scheduler\<close>

lemma addFiles_nothing [simp]: "addFiles [] st = st"
  by (simp add: addFiles_def)

lemma addFiles_fields [simp]:
  "isProcessing (addFiles fs st) = isProcessing st"
  "transform_calls (addFiles fs st) = transform_calls st"
  by (simp_all add: addFiles_def Let_def split_beta)

lemma on_progress_fields [simp]:
  "isProcessing (on_progress k t st) = isProcessing st"
  "next_uuid (on_progress k t st) = next_uuid st"
  "next_url (on_progress k t st) = next_url st"
  "created (on_progress k t st) = created st"
  "transform_calls (on_progress k t st) = transform_calls st"
  by (simp_all add: on_progress_def Let_def)

lemma fold_on_progress_fields [simp]:
  "isProcessing (fold (on_progress k) ts st) = isProcessing st"
  "next_uuid (fold (on_progress k) ts st) = next_uuid st"
  "next_url (fold (on_progress k) ts st) = next_url st"
  "created (fold (on_progress k) ts st) = created st"
  "transform_calls (fold (on_progress k) ts st) = transform_calls st"
  by (induction ts arbitrary: st; simp)+

lemma process_item_calls:
  "transform_calls (process_item rb arr j st) =
     transform_calls st @ (if status j = Done \<or> status j = Processing then [] else [file j])"
  by (simp add: process_item_def Let_def createObjectURL_def split_beta split: outcome.splits)

lemma process_item_isProcessing [simp]:
  "isProcessing (process_item rb arr j st) = isProcessing st"
  by (simp add: process_item_def Let_def createObjectURL_def split_beta split: outcome.splits)

lemma fold_process_item_calls:
  "transform_calls (fold (process_item rb arr) xs st) =
     transform_calls st
     @ map file (filter (\<lambda>i. status i \<noteq> Done \<and> status i \<noteq> Processing) xs)"
  by (induction xs arbitrary: st) (simp_all add: process_item_calls)

lemma run_calls:
  "transform_calls (processSequentially rb arr st) =
     transform_calls st
     @ (if isProcessing st then []
        else map file (filter (\<lambda>i. status i \<noteq> Done \<and> status i \<noteq> Processing) (items st)))"
  by (simp add: processSequentially_def Let_def fold_process_item_calls)

lemma appended_pending_update:
  assumes "appended_pending n0 l st" and "k < n0"
  shows "appended_pending n0 l (set_items (map (\<lambda>i. if item_id i = k then g i else i)) st)"
proof -
  have "map (\<lambda>i. if item_id i = k then g i else i) (drop l (items st)) = drop l (items st)"
  proof (rule map_idI)
    fix i assume "i \<in> set (drop l (items st))"
    with assms have "n0 \<le> item_id i" by (simp add: appended_pending_def)
    with assms(2) show "(if item_id i = k then g i else i) = i" by simp
  qed
  with assms(1) show ?thesis
    by (simp add: appended_pending_def drop_map)
qed

lemma new_item_fresh:
  "item_id (fst (new_item f st)) = next_uuid st"
  "next_uuid (snd (new_item f st)) = Suc (next_uuid st)"
  by (simp_all add: new_item_def randomUUID_def createObjectURL_def Let_def)

lemma new_items_fresh:
  "next_uuid st \<le> next_uuid (snd (new_items fs st))
   \<and> (\<forall>i \<in> set (fst (new_items fs st)). next_uuid st \<le> item_id i)"
proof (induction fs arbitrary: st)
  case Nil
  show ?case by simp
next
  case (Cons f fs)
  have 1: "fst (new_items (f # fs) st)
             = fst (new_item f st) # fst (new_items fs (snd (new_item f st)))"
    and 2: "snd (new_items (f # fs) st) = snd (new_items fs (snd (new_item f st)))"
    by (simp_all add: split_beta Let_def)
  from Cons [of "snd (new_item f st)"] show ?case
    unfolding 1 2 by (auto simp: new_item_fresh)
qed

lemma next_uuid_addFiles: "next_uuid st \<le> next_uuid (addFiles fs st)"
  using new_items_fresh [of st "filter accepted fs"]
  by (simp add: addFiles_def Let_def split_beta)

lemma appended_pending_addFiles:
  assumes "appended_pending n0 l st"
  shows "appended_pending n0 l (addFiles fs st)"
proof -
  let ?new = "fst (new_items (filter accepted fs) st)"
  have a: "\<forall>i \<in> set ?new. status i = Pending"
    using new_items_props [of "filter accepted fs" st] by blast
  have b: "\<forall>i \<in> set ?new. n0 \<le> item_id i"
    using new_items_fresh [of st "filter accepted fs"] assms
    by (auto simp: appended_pending_def)
  have c: "n0 \<le> next_uuid (addFiles fs st)"
    using next_uuid_addFiles [of st fs] assms by (simp add: appended_pending_def)
  from assms a b c show ?thesis
    by (auto simp: appended_pending_def addFiles_items)
qed

lemma appended_pending_ticks:
  assumes "appended_pending n0 l st" and "k < n0"
  shows "appended_pending n0 l (fold (on_progress k) ts st)"
  using assms(1)
proof (induction ts arbitrary: st)
  case Nil
  then show ?case by simp
next
  case (Cons t ts)
  have "appended_pending n0 l (on_progress k t st)"
    unfolding on_progress_def Let_def
    by (rule appended_pending_update [OF Cons.prems assms(2)])
  then show ?case
    by (simp add: Cons.IH)
qed

lemma appended_pending_other_fields:
  "appended_pending n0 l (st\<lparr>transform_calls := c\<rparr>) = appended_pending n0 l st"
  "appended_pending n0 l (st\<lparr>isProcessing := b\<rparr>) = appended_pending n0 l st"
  "appended_pending n0 l (snd (createObjectURL st)) = appended_pending n0 l st"
  by (simp_all add: appended_pending_def createObjectURL_def)

lemma appended_pending_process_item:
  assumes "appended_pending n0 l st" and "item_id j < n0"
  shows "appended_pending n0 l (process_item rb arr j st)"
proof (cases "status j = Done \<or> status j = Processing")
  case True
  with assms(1) show ?thesis by (simp add: process_item_def)
next
  case False
  let ?k = "item_id j"
  have 1: "appended_pending n0 l (set_items (mark_processing ?k) st)" (is "appended_pending _ _ ?st1")
    unfolding mark_processing_def by (rule appended_pending_update [OF assms])
  let ?st2 = "?st1\<lparr>transform_calls := transform_calls ?st1 @ [file j]\<rparr>"
  let ?st3 = "addFiles (arr (file j)) ?st2"
  let ?st4 = "fold (on_progress ?k) (fst (rb (file j))) ?st3"
  have 2: "appended_pending n0 l ?st2"
    using 1 by (simp only: appended_pending_other_fields)
  have 3: "appended_pending n0 l ?st3"
    by (rule appended_pending_addFiles [OF 2])
  have 4: "appended_pending n0 l ?st4"
    by (rule appended_pending_ticks [OF 3 assms(2)])
  show ?thesis
  proof (cases "snd (rb (file j))")
    case (Resolved b)
    have 5: "appended_pending n0 l (snd (createObjectURL ?st4))"
      using 4 by (simp only: appended_pending_other_fields)
    have "appended_pending n0 l
            (set_items (mark_done ?k (fst (createObjectURL ?st4)) b) (snd (createObjectURL ?st4)))"
      unfolding mark_done_def by (rule appended_pending_update [OF 5 assms(2)])
    with False Resolved show ?thesis
      by (simp add: process_item_def Let_def split_beta)
  next
    case (Rejected e)
    have "appended_pending n0 l (set_items (mark_error ?k (failure_message e)) ?st4)"
      unfolding mark_error_def by (rule appended_pending_update [OF 4 assms(2)])
    with False Rejected show ?thesis
      by (simp add: process_item_def Let_def split_beta)
  qed
qed

lemma appended_pending_fold:
  assumes "\<forall>j \<in> set xs. item_id j < n0" and "appended_pending n0 l st"
  shows "appended_pending n0 l (fold (process_item rb arr) xs st)"
  using assms
  by (induction xs arbitrary: st) (simp_all add: appended_pending_process_item)

text \<open>
  C4, as stated, fails: the loop of line 53 runs over the array \<open>items\<close> that the function
  closed over, not over the current state. A file added while \<open>cat.jpg\<close> is in flight
  becomes a pending item at the end of the collection, the run never hands it to the
  transform, and it is still pending when the run is over.
\<close>

theorem run_misses_appended_item_counterexample:
  "map file (items (processSequentially succeeds arrive_dog one_pending)) = [cat_jpg, dog_upper]
   \<and> map status (items (processSequentially succeeds arrive_dog one_pending)) = [Done, Pending]
   \<and> transform_calls (processSequentially succeeds arrive_dog one_pending) = [cat_jpg]
   \<and> isProcessing (processSequentially succeeds arrive_dog one_pending) = False"
  by code_simp

text \<open>
  C4, amended: a run that starts (no other run in flight) on a collection whose ids are
  ones already drawn invokes the transform exactly for the items that were in the
  collection when it started and were neither done nor processing then, in collection
  order, whatever is added meanwhile; the items appended while it is in flight are all
  still pending when it settles.
\<close>

theorem run_scans_snapshot:
  assumes "\<not> isProcessing st" and "\<forall>i \<in> set (items st). item_id i < next_uuid st"
  shows "transform_calls (processSequentially rb arr st) =
           transform_calls st
           @ map file (filter (\<lambda>i. status i \<noteq> Done \<and> status i \<noteq> Processing) (items st))
         \<and> length (items st) \<le> length (items (processSequentially rb arr st))
         \<and> (\<forall>i \<in> set (drop (length (items st)) (items (processSequentially rb arr st))).
               status i = Pending)"
proof -
  have "appended_pending (next_uuid st) (length (items st)) (st\<lparr>isProcessing := True\<rparr>)"
    by (simp add: appended_pending_def)
  from appended_pending_fold [OF assms(2) this]
  have "appended_pending (next_uuid st) (length (items st)) (processSequentially rb arr st)"
    using assms(1)
    by (simp add: processSequentially_def Let_def appended_pending_other_fields)
  then show ?thesis
    using assms(1) by (simp add: run_calls appended_pending_def)
qed

theorem run_scans_snapshot_witness:
  "isProcessing one_pending = False
   \<and> map item_id (items one_pending) = [0] \<and> next_uuid one_pending = 1
   \<and> transform_calls (processSequentially succeeds arrive_dog one_pending) = [cat_jpg]
   \<and> list_all (\<lambda>i. status i = Pending)
        (drop (length (items one_pending))
           (items (processSequentially succeeds arrive_dog one_pending)))
   \<and> length (items one_pending) < length (items (processSequentially succeeds arrive_dog one_pending))"
proof -
  have a: "isProcessing one_pending = False" by code_simp
  have b: "map item_id (items one_pending) = [0]" by code_simp
  have c: "next_uuid one_pending = 1" by code_simp
  have "set (map item_id (items one_pending)) = {0}"
    by (simp only: b) simp
  then have h: "\<forall>i \<in> set (items one_pending). item_id i < next_uuid one_pending"
    unfolding c by (simp only: set_map) auto
  have n: "\<not> isProcessing one_pending"
    using a by simp
  note t = run_scans_snapshot [OF n h, of succeeds arrive_dog]
  have r: "transform_calls one_pending
             @ map file (filter (\<lambda>i. status i \<noteq> Done \<and> status i \<noteq> Processing) (items one_pending))
           = [cat_jpg]"
    by code_simp
  have d: "transform_calls (processSequentially succeeds arrive_dog one_pending) = [cat_jpg]"
    using t r by simp
  have e: "list_all (\<lambda>i. status i = Pending)
        (drop (length (items one_pending))
           (items (processSequentially succeeds arrive_dog one_pending)))"
    using t by (simp add: list_all_iff)
  have f: "length (items one_pending) < length (items (processSequentially succeeds arrive_dog one_pending))"
    by code_simp
  show ?thesis
    by (intro conjI a b c d e f)
qed

lemma update_item_compose:
  assumes "\<And>i. item_id (h i) = item_id i"
  shows "update_item k g (update_item k h xs) = update_item k (\<lambda>i. g (h i)) xs"
  by (induction xs) (simp_all add: update_item_def assms)


lemma mark_as_update:
  "mark_processing k = update_item k (\<lambda>i. i\<lparr>status := Processing, progress := Num 0\<rparr>)"
  "mark_done k u b = update_item k (\<lambda>i. i\<lparr>resultUrl := Some u, resultBlob := Some b,
                                            progress := Num 100, status := Done\<rparr>)"
  "mark_error k m = update_item k (\<lambda>i. i\<lparr>status := Error, errorMessage := Some m\<rparr>)"
  by (rule ext, simp add: mark_processing_def mark_done_def mark_error_def update_item_def)+

lemma on_progress_items:
  "items (on_progress k t st)
     = update_item k (\<lambda>i. i\<lparr>progress := percent (fst t) (snd t)\<rparr>) (items st)"
  by (simp add: on_progress_def Let_def update_item_def)

lemma fold_on_progress_items:
  "items (fold (on_progress k) ts st)
     = update_item k
         (\<lambda>i. i\<lparr>progress := fold (\<lambda>t p. percent (fst t) (snd t)) ts (progress i)\<rparr>) (items st)"
proof (induction ts arbitrary: st)
  case Nil
  show ?case by (simp add: update_item_def)
next
  case (Cons t ts)
  show ?case
    by (simp add: Cons.IH on_progress_items update_item_compose)
qed

lemma process_item_resolved:
  assumes "status j \<noteq> Done" and "status j \<noteq> Processing" and "snd (rb (file j)) = Resolved b"
  shows "items (process_item rb no_arrivals j st)
           = update_item (item_id j)
               (\<lambda>i. i\<lparr>resultUrl := Some (next_url st), resultBlob := Some b,
                       progress := Num 100, status := Done\<rparr>) (items st)"
  using assms
  by (simp add: process_item_def Let_def split_beta no_arrivals_def createObjectURL_def
      mark_as_update fold_on_progress_items update_item_compose)

lemma process_item_rejected:
  assumes "status j \<noteq> Done" and "status j \<noteq> Processing" and "snd (rb (file j)) = Rejected e"
  shows "items (process_item rb no_arrivals j st)
           = update_item (item_id j)
               (\<lambda>i. i\<lparr>progress := fold (\<lambda>t p. percent (fst t) (snd t)) (fst (rb (file j))) (Num 0),
                       status := Error, errorMessage := Some (failure_message e)\<rparr>) (items st)"
  using assms
  by (simp add: process_item_def Let_def split_beta no_arrivals_def
      mark_as_update fold_on_progress_items update_item_compose)

lemma process_item_items:
  assumes "status j \<noteq> Done" and "status j \<noteq> Processing"
  shows "\<exists>g. items (process_item rb no_arrivals j st) = update_item (item_id j) g (items st)
           \<and> (\<forall>i. item_id (g i) = item_id i)
           \<and> (\<forall>i. status (g i) = Done \<or> status (g i) = Error)
           \<and> (\<forall>b. snd (rb (file j)) = Resolved b \<longrightarrow>
                  (\<forall>i. status (g i) = Done \<and> resultBlob (g i) = Some b))
           \<and> (\<forall>e. snd (rb (file j)) = Rejected e \<longrightarrow>
                  (\<forall>i. status (g i) = Error \<and> errorMessage (g i) = Some (failure_message e)))"
proof (cases "snd (rb (file j))")
  case (Resolved b)
  note eq = process_item_resolved [of j rb b st, OF assms Resolved]
  show ?thesis
    by (rule exI [where x = "\<lambda>i. i\<lparr>resultUrl := Some (next_url st), resultBlob := Some b,
                                    progress := Num 100, status := Done\<rparr>"])
      (simp add: eq Resolved)
next
  case (Rejected e)
  note eq = process_item_rejected [of j rb e st, OF assms Rejected]
  show ?thesis
    by (rule exI [where x = "\<lambda>i. i\<lparr>progress := fold (\<lambda>t p. percent (fst t) (snd t))
                                                    (fst (rb (file j))) (Num 0),
                                    status := Error, errorMessage := Some (failure_message e)\<rparr>"])
      (simp add: eq Rejected)
qed







section \<open>The outcome of a run, item by item\<close>

lemma update_item_length [simp]: "length (update_item k g xs) = length xs"
  by (simp add: update_item_def)


lemma process_item_length [simp]:
  "length (items (process_item rb no_arrivals j s)) = length (items s)"
proof (cases "status j = Done \<or> status j = Processing")
  case True
  then show ?thesis by (simp add: process_item_def)
next
  case False
  then obtain g where "items (process_item rb no_arrivals j s) = update_item (item_id j) g (items s)"
    using process_item_items [of j rb s] by blast
  then show ?thesis by simp
qed










section \<open>The updates of a run, and a retry\<close>







end
